theory Spec2Isabelle
  imports Complex_Main "HOL-Library.Sublist"
begin

section \<open>Tensors\<close>

text \<open>
  The notebook works on two-dimensional tensors: a batch of row vectors. A tensor is the
  list of its rows and an entry is a real number, so arithmetic on it is exact. The one
  operation of the notebook that is not defined on every real, \<open>torch.log\<close>, is partial
  (see \<open>torch_log\<close>). What float32 adds to the reals, the infinities, nan and overflow,
  is in the section on float32 values, for the results whose range or finiteness is in
  question.
\<close>

type_synonym tensor = "real list list"

datatype error = RuntimeError | IndexError

definition has_shape :: "nat \<Rightarrow> nat \<Rightarrow> tensor \<Rightarrow> bool" where
  "has_shape b n t \<longleftrightarrow> length t = b \<and> (\<forall>row \<in> set t. length row = n)"


definition numel :: "tensor \<Rightarrow> nat" where
  "numel t = sum_list (map length t)"

text \<open>
  Elementwise operations, and with a scalar. The two operands of every elementwise
  operation of the notebook have one shape (the two heads of the encoder have the same
  number of outputs, and the noise is drawn in the shape of \<open>sigma\<close>), where torch
  works entry by entry; \<open>pointwise\<close> is meant for such operands only.
\<close>

definition pointwise :: "(real \<Rightarrow> real \<Rightarrow> real) \<Rightarrow> tensor \<Rightarrow> tensor \<Rightarrow> tensor" where
  "pointwise f s t = map2 (map2 f) s t"

definition tensor_add :: "tensor \<Rightarrow> tensor \<Rightarrow> tensor" where
  "tensor_add s t = pointwise (+) s t"

definition tensor_sub :: "tensor \<Rightarrow> tensor \<Rightarrow> tensor" where
  "tensor_sub s t = pointwise (-) s t"

definition tensor_mul :: "tensor \<Rightarrow> tensor \<Rightarrow> tensor" where
  "tensor_mul s t = pointwise (*) s t"

definition scalar_add :: "real \<Rightarrow> tensor \<Rightarrow> tensor" where
  "scalar_add c t = map (map (\<lambda>v. c + v)) t"

definition pow2 :: "tensor \<Rightarrow> tensor" where
  "pow2 t = map (map (\<lambda>v. v ^ 2)) t"

definition torch_sum :: "tensor \<Rightarrow> real" where
  "torch_sum t = sum_list (map sum_list t)"

text \<open>
  \<open>torch.log\<close> returns \<open>-inf\<close> at 0 and \<open>nan\<close> below 0, which are not numbers:
  the result is \<open>None\<close> as soon as one entry is not positive.
\<close>

definition torch_log :: "tensor \<Rightarrow> tensor option" where
  "torch_log t = (if \<forall>row \<in> set t. \<forall>v \<in> set row. 0 < v then Some (map (map ln) t) else None)"

definition relu :: "tensor \<Rightarrow> tensor" where
  "relu t = map (map (max 0)) t"

definition sigmoid :: "tensor \<Rightarrow> tensor" where
  "sigmoid t = map (map (\<lambda>v. 1 / (1 + exp (- v)))) t"

section \<open>The affine transform \<open>nn.Linear\<close>\<close>

text \<open>
  \<open>nn.Linear(in_features, out_features)\<close> owns a weight matrix of \<open>out_features\<close> rows
  and \<open>in_features\<close> columns and a bias of \<open>out_features\<close> entries. Its values are drawn
  at construction and changed by the optimizer; its shape never changes. The values are
  a parameter of the constructor here, given by index, so every shape is right by
  construction and every value is possible.
\<close>

record Linear =
  in_features :: nat
  out_features :: nat
  weight :: tensor
  bias :: "real list"

definition nn_Linear :: "nat \<Rightarrow> nat \<Rightarrow> (nat \<Rightarrow> nat \<Rightarrow> real) \<Rightarrow> (nat \<Rightarrow> real) \<Rightarrow> Linear" where
  "nn_Linear inn out w b =
     \<lparr>in_features = inn, out_features = out,
      weight = map (\<lambda>j. map (w j) [0..<inn]) [0..<out],
      bias = map b [0..<out]\<rparr>"

definition dot :: "real list \<Rightarrow> real list \<Rightarrow> real" where
  "dot xs ys = sum_list (map2 (*) xs ys)"

text \<open>\<open>y = x W\<^sup>T + b\<close> on every row; a row of another length raises.\<close>

definition Linear_forward :: "Linear \<Rightarrow> tensor \<Rightarrow> error + tensor" where
  "Linear_forward l x =
     (if \<forall>row \<in> set x. length row = in_features l
      then Inr (map (\<lambda>row. map2 (\<lambda>w b. dot row w + b) (weight l) (bias l)) x)
      else Inl RuntimeError)"

section \<open>The model\<close>

record VariationalAutoEncoder =
  img_2hid :: Linear
  hid_2mu :: Linear
  hid_2sigma :: Linear
  z_2hid :: Linear
  hid_2img :: Linear

record parameters =
  img_2hid_weight :: "nat \<Rightarrow> nat \<Rightarrow> real"
  img_2hid_bias :: "nat \<Rightarrow> real"
  hid_2mu_weight :: "nat \<Rightarrow> nat \<Rightarrow> real"
  hid_2mu_bias :: "nat \<Rightarrow> real"
  hid_2sigma_weight :: "nat \<Rightarrow> nat \<Rightarrow> real"
  hid_2sigma_bias :: "nat \<Rightarrow> real"
  z_2hid_weight :: "nat \<Rightarrow> nat \<Rightarrow> real"
  z_2hid_bias :: "nat \<Rightarrow> real"
  hid_2img_weight :: "nat \<Rightarrow> nat \<Rightarrow> real"
  hid_2img_bias :: "nat \<Rightarrow> real"

text \<open>
  \<open>__init__(input_dim, h_dim, z_dim)\<close>, with the values \<open>p\<close> of the parameters. Every
  model of the notebook is \<open>init input_dim h_dim z_dim p\<close> for some \<open>p\<close>: training changes
  \<open>p\<close> only.
\<close>

definition init :: "nat \<Rightarrow> nat \<Rightarrow> nat \<Rightarrow> parameters \<Rightarrow> VariationalAutoEncoder" where
  "init input_dim h_dim z_dim p =
     \<lparr>img_2hid = nn_Linear input_dim h_dim (img_2hid_weight p) (img_2hid_bias p),
      hid_2mu = nn_Linear h_dim z_dim (hid_2mu_weight p) (hid_2mu_bias p),
      hid_2sigma = nn_Linear h_dim z_dim (hid_2sigma_weight p) (hid_2sigma_bias p),
      z_2hid = nn_Linear z_dim h_dim (z_2hid_weight p) (z_2hid_bias p),
      hid_2img = nn_Linear h_dim input_dim (hid_2img_weight p) (hid_2img_bias p)\<rparr>"

definition encode :: "VariationalAutoEncoder \<Rightarrow> tensor \<Rightarrow> error + (tensor \<times> tensor)" where
  "encode m x =
     (case Linear_forward (img_2hid m) x of
        Inl e \<Rightarrow> Inl e
      | Inr a \<Rightarrow>
          (let h = relu a in
           case Linear_forward (hid_2mu m) h of
             Inl e \<Rightarrow> Inl e
           | Inr mu \<Rightarrow>
               (case Linear_forward (hid_2sigma m) h of
                  Inl e \<Rightarrow> Inl e
                | Inr sigma \<Rightarrow> Inr (mu, sigma))))"

definition decode :: "VariationalAutoEncoder \<Rightarrow> tensor \<Rightarrow> error + tensor" where
  "decode m z =
     (case Linear_forward (z_2hid m) z of
        Inl e \<Rightarrow> Inl e
      | Inr a \<Rightarrow>
          (let h = relu a in
           case Linear_forward (hid_2img m) h of
             Inl e \<Rightarrow> Inl e
           | Inr y \<Rightarrow> Inr (sigmoid y)))"

section \<open>float32 values\<close>

text \<open>
  The entries above are real numbers, and no operation on them leaves the reals. A
  float32 tensor also holds the two infinities and nan, which the decoder and the loss
  reach from finite inputs. Where a claim is about the range of a result, or about a
  result being a number, the computation is given again on these values, for finite
  inputs and finite parameters. A finite result is the exact one, unless its magnitude
  reaches \<open>2\<^sup>1\<^sup>2\<^sup>8 - 2\<^sup>1\<^sup>0\<^sup>3\<close>, from where float32 rounds to an infinity, or it is a square
  of magnitude at most \<open>2\<^sup>-\<^sup>1\<^sup>5\<^sup>0\<close>, which float32 rounds to 0; the rounding of other
  results is left out. The special values follow IEEE 754: \<open>inf - inf\<close> and \<open>0 * inf\<close> are
  nan and nan propagates; \<open>log\<close> is \<open>-inf\<close> at 0 and nan below; \<open>relu\<close> keeps nan and sends
  \<open>-inf\<close> to 0; \<open>sigmoid\<close> sends \<open>inf\<close> to 1 and \<open>-inf\<close> to 0.
\<close>

datatype float32 = Finite real | PInf | NInf | NaN

definition overflow :: "real \<Rightarrow> float32" where
  "overflow r =
     (if 2 ^ 128 - 2 ^ 103 \<le> r then PInf
      else if r \<le> - (2 ^ 128 - 2 ^ 103) then NInf
      else Finite r)"

fun float_add :: "float32 \<Rightarrow> float32 \<Rightarrow> float32" where
  "float_add NaN b = NaN"
| "float_add a NaN = NaN"
| "float_add PInf NInf = NaN"
| "float_add NInf PInf = NaN"
| "float_add PInf b = PInf"
| "float_add a PInf = PInf"
| "float_add NInf b = NInf"
| "float_add a NInf = NInf"
| "float_add (Finite a) (Finite b) = overflow (a + b)"

fun float_mul :: "float32 \<Rightarrow> float32 \<Rightarrow> float32" where
  "float_mul NaN b = NaN"
| "float_mul a NaN = NaN"
| "float_mul (Finite a) (Finite b) = overflow (a * b)"
| "float_mul PInf PInf = PInf"
| "float_mul PInf NInf = NInf"
| "float_mul NInf PInf = NInf"
| "float_mul NInf NInf = PInf"
| "float_mul PInf (Finite b) = (if 0 < b then PInf else if b < 0 then NInf else NaN)"
| "float_mul NInf (Finite b) = (if 0 < b then NInf else if b < 0 then PInf else NaN)"
| "float_mul (Finite a) PInf = (if 0 < a then PInf else if a < 0 then NInf else NaN)"
| "float_mul (Finite a) NInf = (if 0 < a then NInf else if a < 0 then PInf else NaN)"






fun relu_float :: "float32 \<Rightarrow> float32" where
  "relu_float (Finite a) = Finite (max 0 a)"
| "relu_float PInf = PInf"
| "relu_float NInf = Finite 0"
| "relu_float NaN = NaN"

fun sigmoid_float :: "float32 \<Rightarrow> float32" where
  "sigmoid_float (Finite a) = Finite (1 / (1 + exp (- a)))"
| "sigmoid_float PInf = Finite 1"
| "sigmoid_float NInf = Finite 0"
| "sigmoid_float NaN = NaN"

section \<open>The decoder on float32 values\<close>

definition dot_float :: "float32 list \<Rightarrow> real list \<Rightarrow> float32" where
  "dot_float xs ws = foldl float_add (Finite 0) (map2 (\<lambda>x w. float_mul x (Finite w)) xs ws)"

definition Linear_forward_float :: "Linear \<Rightarrow> float32 list list \<Rightarrow> error + float32 list list" where
  "Linear_forward_float l x =
     (if \<forall>row \<in> set x. length row = in_features l
      then Inr (map (\<lambda>row. map2 (\<lambda>w b. float_add (dot_float row w) (Finite b))
                       (weight l) (bias l)) x)
      else Inl RuntimeError)"

definition decode_float :: "VariationalAutoEncoder \<Rightarrow> tensor \<Rightarrow> error + float32 list list" where
  "decode_float m z =
     (case Linear_forward_float (z_2hid m) (map (map Finite) z) of
        Inl e \<Rightarrow> Inl e
      | Inr a \<Rightarrow>
          (let h = map (map relu_float) a in
           case Linear_forward_float (hid_2img m) h of
             Inl e \<Rightarrow> Inl e
           | Inr y \<Rightarrow> Inr (map (map sigmoid_float) y)))"

text \<open>
  Parameters that overflow the hidden layer: the weights into the hidden layer are
  \<open>2\<^sup>1\<^sup>0\<^sup>0\<close>, every other weight and every bias is 0.
\<close>

definition overflow_parameters :: parameters where
  "overflow_parameters =
     \<lparr>img_2hid_weight = (\<lambda>j i. 0), img_2hid_bias = (\<lambda>j. 0),
      hid_2mu_weight = (\<lambda>j i. 0), hid_2mu_bias = (\<lambda>j. 0),
      hid_2sigma_weight = (\<lambda>j i. 0), hid_2sigma_bias = (\<lambda>j. 0),
      z_2hid_weight = (\<lambda>j i. 2 ^ 100), z_2hid_bias = (\<lambda>j. 0),
      hid_2img_weight = (\<lambda>j i. 0), hid_2img_bias = (\<lambda>j. 0)\<rparr>"

section \<open>Randomness\<close>

text \<open>
  The ambient generator is the stream of its future standard-normal draws.
  \<open>torch.randn_like(t)\<close> takes one draw per entry of \<open>t\<close>, in row-major order, and
  leaves the rest of the stream.
\<close>

type_synonym rng = "nat \<Rightarrow> real"

fun fill :: "rng \<Rightarrow> tensor \<Rightarrow> tensor" where
  "fill g [] = []"
| "fill g (row # rows) = map g [0..<length row] # fill (\<lambda>k. g (length row + k)) rows"

definition randn_like :: "rng \<Rightarrow> tensor \<Rightarrow> tensor \<times> rng" where
  "randn_like g t = (fill g t, \<lambda>k. g (numel t + k))"

definition forward ::
  "VariationalAutoEncoder \<Rightarrow> tensor \<Rightarrow> rng \<Rightarrow> (error + tensor \<times> tensor \<times> tensor) \<times> rng" where
  "forward m x g =
     (case encode m x of
        Inl e \<Rightarrow> (Inl e, g)
      | Inr (mu, sigma) \<Rightarrow>
          (let (epsilon, g') = randn_like g sigma;
               z_reparametrized = tensor_add mu (tensor_mul sigma epsilon)
           in case decode m z_reparametrized of
                Inl e \<Rightarrow> (Inl e, g')
              | Inr x_reconstructed \<Rightarrow> (Inr (x_reconstructed, mu, sigma), g')))"

section \<open>The loss of a batch\<close>

definition INPUT_DIM :: nat where
  "INPUT_DIM = 784"

text \<open>
  \<open>-torch.sum(1 + torch.log(sigma.pow(2)) - mu.pow(2) - sigma.pow(2))\<close>; \<open>None\<close> when the
  logarithm is not a number.
\<close>

definition kl_div :: "tensor \<Rightarrow> tensor \<Rightarrow> real option" where
  "kl_div mu sigma =
     (case torch_log (pow2 sigma) of
        None \<Rightarrow> None
      | Some l \<Rightarrow>
          Some (- torch_sum (tensor_sub (tensor_sub (scalar_add 1 l) (pow2 mu)) (pow2 sigma))))"

definition loss :: "real \<Rightarrow> real \<Rightarrow> real \<Rightarrow> real" where
  "loss alpha reconstruction_loss kl = alpha * reconstruction_loss + (1 - alpha) * kl"

text \<open>
  The body of the loop of \<open>train\<close> up to the value of the loss: the batch \<open>x\<close> is the list
  of its images, each the list of its pixels; \<open>x.view(x.shape[0], INPUT_DIM)\<close> raises
  unless every image has \<open>INPUT_DIM\<close> pixels. \<open>loss_fn\<close> is the parameter of \<open>train\<close>.
  The gradient and the optimizer step that follow belong to torch.
\<close>

definition view_batch :: "tensor \<Rightarrow> error + tensor" where
  "view_batch x = (if \<forall>row \<in> set x. length row = INPUT_DIM then Inr x else Inl RuntimeError)"

definition batch_loss :: "(tensor \<Rightarrow> tensor \<Rightarrow> real) \<Rightarrow> real \<Rightarrow> tensor \<Rightarrow> tensor \<times> tensor \<times> tensor \<Rightarrow> real option" where
  "batch_loss loss_fn alpha x out =
     (case out of (x_reconstructed, mu, sigma) \<Rightarrow>
        (let reconstruction_loss = loss_fn x_reconstructed x
         in map_option (loss alpha reconstruction_loss) (kl_div mu sigma)))"

definition train_loss ::
  "VariationalAutoEncoder \<Rightarrow> (tensor \<Rightarrow> tensor \<Rightarrow> real) \<Rightarrow> real \<Rightarrow> tensor \<Rightarrow> rng
     \<Rightarrow> (error + real option) \<times> rng" where
  "train_loss model loss_fn alpha x g =
     (case view_batch x of
        Inl e \<Rightarrow> (Inl e, g)
      | Inr x' \<Rightarrow>
          (case forward model x' g of
             (Inl e, g') \<Rightarrow> (Inl e, g')
           | (Inr out, g') \<Rightarrow> (Inr (batch_loss loss_fn alpha x' out), g')))"






section \<open>The conditional generator\<close>

text \<open>
  An image of the dataset is the list of the entries of its tensor. The dataset is the
  list of its pairs of an image and an integer label, read from the start by every
  \<open>for\<close> loop over it.
\<close>

type_synonym image = "real list"

text \<open>Python's \<open>xs[i]\<close>: a negative index counts from the end.\<close>

definition py_index :: "'a list \<Rightarrow> int \<Rightarrow> error + 'a" where
  "py_index xs i =
     (let n = int (length xs); j = (if i < 0 then n + i else i)
      in if 0 \<le> j \<and> j < n then Inr (xs ! nat j) else Inl IndexError)"

text \<open>
  The loop \<open>for x, y in dataset\<close>: an element is kept when its label is the number of
  elements kept so far; the test that ends the loop comes after each element.
\<close>

fun scan :: "nat \<Rightarrow> 'a list \<Rightarrow> nat \<Rightarrow> ('a \<times> int) list \<Rightarrow> 'a list \<times> nat" where
  "scan len_labels images idx [] = (images, idx)"
| "scan len_labels images idx ((x, y) # dataset) =
     (let (images', idx') = (if y = int idx then (images @ [x], idx + 1) else (images, idx))
      in if idx' = len_labels then (images', idx')
         else scan len_labels images' idx' dataset)"

definition view_1_784 :: "image \<Rightarrow> error + tensor" where
  "view_1_784 img = (if length img = 784 then Inr [img] else Inl RuntimeError)"

text \<open>
  \<open>out.view(-1, 1, 28, 28)\<close>: the entries of \<open>out\<close> cut into images of \<open>28 * 28\<close> entries;
  it raises when their number is 0 or not a multiple of 784.
\<close>

definition view_m1_1_28_28 :: "tensor \<Rightarrow> error + tensor" where
  "view_m1_1_28_28 out =
     (let flat = concat out
      in if flat \<noteq> [] \<and> length flat mod 784 = 0
         then Inr (map (\<lambda>i. take 784 (drop (i * 784) flat)) [0..<length flat div 784])
         else Inl RuntimeError)"

text \<open>The loop \<open>for d in range(len_labels)\<close>.\<close>

fun encodings_loop ::
  "VariationalAutoEncoder \<Rightarrow> image list \<Rightarrow> nat list \<Rightarrow> (tensor \<times> tensor) list
     \<Rightarrow> error + (tensor \<times> tensor) list" where
  "encodings_loop model images [] encodings_digit = Inr encodings_digit"
| "encodings_loop model images (d # ds) encodings_digit =
     (case py_index images (int d) of
        Inl e \<Rightarrow> Inl e
      | Inr img \<Rightarrow>
          (case view_1_784 img of
             Inl e \<Rightarrow> Inl e
           | Inr v \<Rightarrow>
               (case encode model v of
                  Inl e \<Rightarrow> Inl e
                | Inr ms \<Rightarrow> encodings_loop model images ds (encodings_digit @ [ms]))))"

text \<open>
  The output sink is the list of the calls of \<open>save_image\<close>, in order: the path and the
  tensor written. The state of a run is the generator and the sink.
\<close>

type_synonym sink = "(string \<times> tensor) list"
type_synonym world = "rng \<times> sink"

text \<open>Python's \<open>str\<close> of an integer, for the f-string of the path.\<close>

fun str_nat :: "nat \<Rightarrow> string" where
  "str_nat n =
     (if n < 10 then [char_of (48 + n)]
      else str_nat (n div 10) @ [char_of (48 + n mod 10)])"

definition str_int :: "int \<Rightarrow> string" where
  "str_int i = (if i < 0 then CHR ''-'' # str_nat (nat (- i)) else str_nat (nat i))"

definition path :: "string \<Rightarrow> int \<Rightarrow> nat \<Rightarrow> string" where
  "path folder label example =
     folder @ ''/label_'' @ str_int label @ ''_'' @ str_nat example @ ''.png''"

text \<open>The loop \<open>for example in range(n_examples)\<close>.\<close>

fun examples_loop ::
  "VariationalAutoEncoder \<Rightarrow> string \<Rightarrow> int \<Rightarrow> tensor \<Rightarrow> tensor \<Rightarrow> nat list \<Rightarrow> world
     \<Rightarrow> (error + unit) \<times> world" where
  "examples_loop model folder label mu sigma [] w = (Inr (), w)"
| "examples_loop model folder label mu sigma (example # rest) (g, files) =
     (let (epsilon, g') = randn_like g sigma;
          z = tensor_add mu (tensor_mul sigma epsilon)
      in case decode model z of
           Inl e \<Rightarrow> (Inl e, (g', files))
         | Inr out \<Rightarrow>
             (case view_m1_1_28_28 out of
                Inl e \<Rightarrow> (Inl e, (g', files))
              | Inr out' \<Rightarrow>
                  examples_loop model folder label mu sigma rest
                    (g', files @ [(path folder label example, out')])))"

text \<open>
  The body of the loop \<open>for label in labels\<close>: first the exemplars and the encoding
  chosen for the label, then the examples.
\<close>

definition exemplar_encoding ::
  "VariationalAutoEncoder \<Rightarrow> nat \<Rightarrow> (image \<times> int) list \<Rightarrow> int \<Rightarrow> error + tensor \<times> tensor" where
  "exemplar_encoding model len_labels dataset label =
     (let (images, idx) = scan len_labels [] 0 dataset
      in case encodings_loop model images [0..<len_labels] [] of
           Inl e \<Rightarrow> Inl e
         | Inr encodings_digit \<Rightarrow> py_index encodings_digit label)"

definition generate ::
  "VariationalAutoEncoder \<Rightarrow> nat \<Rightarrow> string \<Rightarrow> (image \<times> int) list \<Rightarrow> int \<Rightarrow> int \<Rightarrow> world
     \<Rightarrow> (error + unit) \<times> world" where
  "generate model len_labels folder dataset n_examples label w =
     (case exemplar_encoding model len_labels dataset label of
        Inl e \<Rightarrow> (Inl e, w)
      | Inr (mu, sigma) \<Rightarrow>
          examples_loop model folder label mu sigma [0..<nat n_examples] w)"

fun labels_loop ::
  "VariationalAutoEncoder \<Rightarrow> nat \<Rightarrow> string \<Rightarrow> (image \<times> int) list \<Rightarrow> int \<Rightarrow> int list \<Rightarrow> world
     \<Rightarrow> (error + unit) \<times> world" where
  "labels_loop model len_labels folder dataset n_examples [] w = (Inr (), w)"
| "labels_loop model len_labels folder dataset n_examples (label # rest) w =
     (case generate model len_labels folder dataset n_examples label w of
        (Inl e, w') \<Rightarrow> (Inl e, w')
      | (Inr u, w') \<Rightarrow> labels_loop model len_labels folder dataset n_examples rest w')"

definition inference ::
  "VariationalAutoEncoder \<Rightarrow> int list \<Rightarrow> string \<Rightarrow> (image \<times> int) list \<Rightarrow> int \<Rightarrow> world
     \<Rightarrow> (error + unit) \<times> world" where
  "inference model labels folder dataset n_examples w =
     labels_loop model (length labels) folder dataset n_examples labels w"

text \<open>
  The two readings of the scan in the specification. \<open>first_occurrences\<close> keeps the
  first element of each label not seen before, until \<open>len_labels\<close> elements are kept.
  \<open>first_after\<close> keeps, for each \<open>k\<close> from the given one and below \<open>len_labels\<close>, the
  first element of label \<open>k\<close> after the element kept for \<open>k - 1\<close>.
\<close>

fun first_occurrences :: "nat \<Rightarrow> int list \<Rightarrow> 'a list \<Rightarrow> ('a \<times> int) list \<Rightarrow> 'a list" where
  "first_occurrences len_labels seen images [] = images"
| "first_occurrences len_labels seen images ((x, y) # dataset) =
     (if y \<in> set seen then first_occurrences len_labels seen images dataset
      else if length images + 1 = len_labels then images @ [x]
      else first_occurrences len_labels (y # seen) (images @ [x]) dataset)"

function first_after :: "nat \<Rightarrow> nat \<Rightarrow> ('a \<times> int) list \<Rightarrow> 'a list" where
  "first_after len_labels k dataset =
     (if k = len_labels then []
      else case dropWhile (\<lambda>(x, y). y \<noteq> int k) dataset of
             [] \<Rightarrow> []
           | (x, y) # rest \<Rightarrow> x # first_after len_labels (k + 1) rest)"
  by pat_completeness auto
termination
proof (relation "measure (\<lambda>(len_labels, k, dataset). length dataset)")
  fix len_labels k :: nat and dataset rest :: "('a \<times> int) list" and p x y
  assume "dropWhile (\<lambda>(x, y). y \<noteq> int k) dataset = p # rest"
  then have "length (p # rest) \<le> length dataset"
    by (metis length_dropWhile_le)
  then show "((len_labels, k + 1, rest), (len_labels, k, dataset))
      \<in> measure (\<lambda>(len_labels, k, dataset). length dataset)"
    by simp
qed simp

declare first_after.simps [simp del]

text \<open>
  Parameters for examples: every weight is 0, the bias of the mean head is 1 and the bias
  of the spread head is 2. An image for examples, of one grey level. And a tag for the
  elements of a dataset: each element carries its own label along.
\<close>

definition example_parameters :: parameters where
  "example_parameters =
     \<lparr>img_2hid_weight = (\<lambda>j i. 0), img_2hid_bias = (\<lambda>j. 0),
      hid_2mu_weight = (\<lambda>j i. 0), hid_2mu_bias = (\<lambda>j. 1),
      hid_2sigma_weight = (\<lambda>j i. 0), hid_2sigma_bias = (\<lambda>j. 2),
      z_2hid_weight = (\<lambda>j i. 0), z_2hid_bias = (\<lambda>j. 0),
      hid_2img_weight = (\<lambda>j i. 0), hid_2img_bias = (\<lambda>j. 0)\<rparr>"

definition example_image :: "real \<Rightarrow> image" where
  "example_image c = replicate 784 c"

definition tagged :: "('a \<times> int) list \<Rightarrow> (('a \<times> int) \<times> int) list" where
  "tagged dataset = map (\<lambda>(x, y). ((x, y), y)) dataset"

section \<open>Shapes\<close>

lemma has_shape_relu: "has_shape b n (relu t) = has_shape b n t"
  by (simp add: has_shape_def relu_def)

lemma has_shape_sigmoid: "has_shape b n (sigmoid t) = has_shape b n t"
  by (simp add: has_shape_def sigmoid_def)

lemma Linear_forward_nn_Linear:
  assumes "has_shape b inn x"
  shows "\<exists>y. Linear_forward (nn_Linear inn out w c) x = Inr y \<and> has_shape b out y"
  using assms by (auto simp: Linear_forward_def nn_Linear_def has_shape_def)

lemma decode_init:
  assumes "has_shape b z_dim z"
  shows "\<exists>y. decode (init input_dim h_dim z_dim p) z = Inr (sigmoid y) \<and> has_shape b input_dim y"
proof -
  obtain a where a: "Linear_forward (z_2hid (init input_dim h_dim z_dim p)) z = Inr a"
    and sa: "has_shape b h_dim a"
    using Linear_forward_nn_Linear [OF assms, of h_dim "z_2hid_weight p" "z_2hid_bias p"]
    by (auto simp: init_def)
  from sa have h: "has_shape b h_dim (relu a)"
    by (simp add: has_shape_relu)
  obtain y where y: "Linear_forward (hid_2img (init input_dim h_dim z_dim p)) (relu a) = Inr y"
    and sy: "has_shape b input_dim y"
    using Linear_forward_nn_Linear [OF h, of input_dim "hid_2img_weight p" "hid_2img_bias p"]
    by (auto simp: init_def)
  from a y have "decode (init input_dim h_dim z_dim p) z = Inr (sigmoid y)"
    by (simp add: decode_def)
  with sy show ?thesis by blast
qed

lemma encode_init:
  assumes "has_shape b input_dim x"
  shows "\<exists>mu sigma. encode (init input_dim h_dim z_dim p) x = Inr (mu, sigma)
           \<and> has_shape b z_dim mu \<and> has_shape b z_dim sigma"
proof -
  obtain a where a: "Linear_forward (img_2hid (init input_dim h_dim z_dim p)) x = Inr a"
    and sa: "has_shape b h_dim a"
    using Linear_forward_nn_Linear [OF assms, of h_dim "img_2hid_weight p" "img_2hid_bias p"]
    by (auto simp: init_def)
  from sa have h: "has_shape b h_dim (relu a)"
    by (simp add: has_shape_relu)
  obtain mu where mu: "Linear_forward (hid_2mu (init input_dim h_dim z_dim p)) (relu a) = Inr mu"
    and smu: "has_shape b z_dim mu"
    using Linear_forward_nn_Linear [OF h, of z_dim "hid_2mu_weight p" "hid_2mu_bias p"]
    by (auto simp: init_def)
  obtain sigma where
    sigma: "Linear_forward (hid_2sigma (init input_dim h_dim z_dim p)) (relu a) = Inr sigma"
    and ssigma: "has_shape b z_dim sigma"
    using Linear_forward_nn_Linear [OF h, of z_dim "hid_2sigma_weight p" "hid_2sigma_bias p"]
    by (auto simp: init_def)
  from a mu sigma have "encode (init input_dim h_dim z_dim p) x = Inr (mu, sigma)"
    by (simp add: encode_def)
  with smu ssigma show ?thesis by blast
qed

lemma encode_init_shape:
  assumes "encode (init input_dim h_dim z_dim p) x = Inr (mu, sigma)"
  shows "has_shape (length x) input_dim x \<and> has_shape (length x) z_dim mu
           \<and> has_shape (length x) z_dim sigma"
proof -
  from assms have "Linear_forward (img_2hid (init input_dim h_dim z_dim p)) x \<noteq> Inl RuntimeError"
    by (auto simp: encode_def split: sum.splits)
  then have x: "has_shape (length x) input_dim x"
    by (auto simp: Linear_forward_def init_def nn_Linear_def has_shape_def split: if_splits)
  from encode_init [OF x, of h_dim z_dim p] assms show ?thesis
    using x by auto
qed

lemma decode_in_shape:
  assumes "has_shape b z_dim z"
  shows "\<exists>out. decode (init input_dim h_dim z_dim p) z = Inr out \<and> has_shape b input_dim out"
  using decode_init [OF assms, of input_dim h_dim p] by (auto simp: has_shape_sigmoid)

section \<open>The decoder\<close>

lemma sigmoid_float_range:
  "sigmoid_float v = NaN \<or> (\<exists>r. sigmoid_float v = Finite r \<and> 0 \<le> r \<and> r \<le> 1)"
proof (cases v)
  case (Finite a)
  have e: "0 < exp (- a)" by simp
  then have "0 < 1 + exp (- a)" by linarith
  with e have "0 \<le> 1 / (1 + exp (- a)) \<and> 1 / (1 + exp (- a)) \<le> 1"
    by (simp add: divide_le_eq_1)
  with Finite show ?thesis by simp
qed simp_all

lemma Linear_forward_float_nn_Linear:
  assumes "length x = b" and "\<forall>row \<in> set x. length row = inn"
  shows "\<exists>y. Linear_forward_float (nn_Linear inn out w c) x = Inr y
           \<and> length y = b \<and> (\<forall>row \<in> set y. length row = out)"
  using assms by (auto simp: Linear_forward_float_def nn_Linear_def)

text \<open>
  On float32 values the decoder of a model built by the constructor returns one vector
  of length \<open>input_dim\<close> per latent code, and every entry is nan or lies between 0 and 1.
\<close>

lemma decode_float_range:
  assumes "has_shape b z_dim z"
  shows "\<exists>out. decode_float (init input_dim h_dim z_dim p) z = Inr out
           \<and> length out = b \<and> (\<forall>row \<in> set out. length row = input_dim)
           \<and> (\<forall>row \<in> set out. \<forall>v \<in> set row.
                 v = NaN \<or> (\<exists>r. v = Finite r \<and> 0 \<le> r \<and> r \<le> 1))"
proof -
  from assms have "length (map (map Finite) z) = b"
    and "\<forall>row \<in> set (map (map Finite) z). length row = z_dim"
    by (auto simp: has_shape_def)
  from Linear_forward_float_nn_Linear [OF this, of h_dim "z_2hid_weight p" "z_2hid_bias p"]
  obtain a where a: "Linear_forward_float (z_2hid (init input_dim h_dim z_dim p))
        (map (map Finite) z) = Inr a"
    and la: "length a = b" and ra: "\<forall>row \<in> set a. length row = h_dim"
    by (auto simp: init_def)
  from la ra have "length (map (map relu_float) a) = b"
    and "\<forall>row \<in> set (map (map relu_float) a). length row = h_dim"
    by auto
  from Linear_forward_float_nn_Linear [OF this, of input_dim "hid_2img_weight p" "hid_2img_bias p"]
  obtain y where y: "Linear_forward_float (hid_2img (init input_dim h_dim z_dim p))
        (map (map relu_float) a) = Inr y"
    and ly: "length y = b" and ry: "\<forall>row \<in> set y. length row = input_dim"
    by (auto simp: init_def)
  from a y have d: "decode_float (init input_dim h_dim z_dim p) z
      = Inr (map (map sigmoid_float) y)"
    by (simp add: decode_float_def)
  have "\<forall>row \<in> set (map (map sigmoid_float) y). \<forall>v \<in> set row.
      v = NaN \<or> (\<exists>r. v = Finite r \<and> 0 \<le> r \<and> r \<le> 1)"
    using sigmoid_float_range by auto
  with d ly ry show ?thesis by auto
qed

lemma decode_float_example:
  "decode_float (init 1 1 1 example_parameters) [[3]] = Inr [[Finite (1 / 2)]]"
  by (simp add: decode_float_def Linear_forward_float_def dot_float_def init_def nn_Linear_def
      example_parameters_def overflow_def)

text \<open>
  C2 fails on the code: with the latent code \<open>2\<^sup>1\<^sup>0\<^sup>0\<close>, the weight \<open>2\<^sup>1\<^sup>0\<^sup>0\<close> into the hidden
  layer and the weight 0 out of it, the hidden value overflows to \<open>inf\<close>, the output
  layer computes \<open>0 * inf\<close>, and the sigmoid of the nan it gets is nan, which is not
  between 0 and 1.
\<close>

theorem decode_float_nan:
  "Linear_forward_float (z_2hid (init 1 1 1 overflow_parameters)) [[Finite (2 ^ 100)]]
     = Inr [[PInf]]
   \<and> decode_float (init 1 1 1 overflow_parameters) [[2 ^ 100]] = Inr [[NaN]]"
  by (simp add: decode_float_def Linear_forward_float_def dot_float_def init_def nn_Linear_def
      overflow_parameters_def overflow_def)

theorem decode_float_nan_witness:
  "\<exists>out. decode_float (init 1 1 1 overflow_parameters) [[2 ^ 100]] = Inr out
     \<and> \<not> (\<forall>row \<in> set out. \<forall>v \<in> set row. \<exists>r. v = Finite r \<and> 0 \<le> r \<and> r \<le> 1)"
  using decode_float_nan by simp

section \<open>The divergence term\<close>







section \<open>The forward pass\<close>

lemma has_shape_numel: "has_shape b n t \<Longrightarrow> numel t = b * n"
proof (induction t arbitrary: b)
  case Nil
  then show ?case by (simp add: has_shape_def numel_def)
next
  case (Cons row t)
  then have "has_shape (length t) n t" by (simp add: has_shape_def)
  from Cons.IH [OF this] Cons.prems show ?case
    by (auto simp: has_shape_def numel_def)
qed

lemma fill_length: "map length (fill g t) = map length t"
  by (induction t arbitrary: g) simp_all

lemma has_shape_fill: "has_shape b n (fill g t) = has_shape b n t"
proof -
  have "length (fill g t) = length t"
    using fill_length [of g t] by (rule map_eq_imp_length_eq)
  moreover have "(\<forall>row \<in> set (fill g t). length row = n) = (\<forall>row \<in> set t. length row = n)"
  proof -
    have "set (map length (fill g t)) = set (map length t)"
      by (simp only: fill_length)
    then have "length ` set (fill g t) = length ` set t" by simp
    then show ?thesis by (metis (no_types, lifting) image_iff)
  qed
  ultimately show ?thesis by (simp add: has_shape_def)
qed

lemma fill_nth:
  "has_shape b n t \<Longrightarrow> r < b \<Longrightarrow> i < n \<Longrightarrow> fill g t ! r ! i = g (r * n + i)"
proof (induction t arbitrary: g b r)
  case Nil
  then show ?case by (simp add: has_shape_def)
next
  case (Cons row t)
  from Cons.prems(1) have l: "length row = n" and t: "has_shape (length t) n t"
    and b: "b = Suc (length t)"
    by (auto simp: has_shape_def)
  show ?case
  proof (cases r)
    case 0
    with l Cons.prems(3) show ?thesis by simp
  next
    case (Suc r')
    with Cons.prems(2) b have "r' < length t" by simp
    from Cons.IH [OF t this Cons.prems(3), of "\<lambda>k. g (length row + k)"] Suc l
    show ?thesis by (simp add: add.assoc)
  qed
qed

lemma fill_cong: "(\<And>k. k < numel t \<Longrightarrow> g1 k = g2 k) \<Longrightarrow> fill g1 t = fill g2 t"
proof (induction t arbitrary: g1 g2)
  case Nil
  then show ?case by simp
next
  case (Cons row t)
  have "fill (\<lambda>k. g1 (length row + k)) t = fill (\<lambda>k. g2 (length row + k)) t"
    by (rule Cons.IH) (simp add: Cons.prems numel_def)
  moreover have "map g1 [0..<length row] = map g2 [0..<length row]"
    by (simp add: Cons.prems numel_def)
  ultimately show ?case by simp
qed

lemma has_shape_pointwise:
  "has_shape b n s \<Longrightarrow> has_shape b n t \<Longrightarrow> has_shape b n (pointwise f s t)"
proof -
  assume s: "has_shape b n s" and t: "has_shape b n t"
  have "length row = n" if "row \<in> set (pointwise f s t)" for row
  proof -
    from that obtain u v where "u \<in> set s" "v \<in> set t" "row = map2 f u v"
      by (auto simp: pointwise_def dest: set_zip_leftD set_zip_rightD)
    with s t show ?thesis by (simp add: has_shape_def)
  qed
  with s t show ?thesis by (simp add: has_shape_def pointwise_def)
qed

lemma pointwise_nth:
  "has_shape b n s \<Longrightarrow> has_shape b n t \<Longrightarrow> r < b \<Longrightarrow> i < n
    \<Longrightarrow> pointwise f s t ! r ! i = f (s ! r ! i) (t ! r ! i)"
  by (simp add: has_shape_def pointwise_def)

lemma randn_like_init:
  assumes "has_shape b n sigma"
  shows "randn_like g sigma = (fill g sigma, \<lambda>k. g (b * n + k))"
  using has_shape_numel [OF assms] by (simp add: randn_like_def)

lemma forward_init:
  assumes "has_shape b input_dim x"
  shows "\<exists>x_reconstructed mu sigma.
           forward (init input_dim h_dim z_dim p) x g
             = (Inr (x_reconstructed, mu, sigma), \<lambda>k. g (b * z_dim + k))
         \<and> has_shape b input_dim x_reconstructed
         \<and> has_shape b z_dim mu \<and> has_shape b z_dim sigma"
proof -
  from encode_init [OF assms, of h_dim z_dim p] obtain mu sigma
    where e: "encode (init input_dim h_dim z_dim p) x = Inr (mu, sigma)"
      and smu: "has_shape b z_dim mu" and ssigma: "has_shape b z_dim sigma"
    by blast
  have "has_shape b z_dim (tensor_mul sigma (fill g sigma))"
    unfolding tensor_mul_def using ssigma
    by (intro has_shape_pointwise) (simp_all add: has_shape_fill)
  with smu have "has_shape b z_dim (tensor_add mu (tensor_mul sigma (fill g sigma)))"
    unfolding tensor_add_def by (intro has_shape_pointwise)
  from decode_in_shape [OF this, of input_dim h_dim p] obtain out
    where d: "decode (init input_dim h_dim z_dim p)
        (tensor_add mu (tensor_mul sigma (fill g sigma))) = Inr out"
      and o: "has_shape b input_dim out"
    by blast
  from e d have "forward (init input_dim h_dim z_dim p) x g
      = (Inr (out, mu, sigma), \<lambda>k. g (b * z_dim + k))"
    by (simp add: forward_def randn_like_init [OF ssigma])
  with o smu ssigma show ?thesis by blast
qed

text \<open>
  C3: when the forward pass of a model built by the constructor returns, the mean and the
  spread are those of the encoder, the noise is one draw of the generator per entry of
  the spread, the latent code is \<open>mean + spread * noise\<close> entry by entry, and the
  reconstruction is the decoder's image of that code: the generator enters through the
  noise of this combination only.
\<close>

theorem forward_reparametrized:
  assumes "forward (init input_dim h_dim z_dim p) x g = (Inr (x_reconstructed, mu, sigma), g')"
  shows "encode (init input_dim h_dim z_dim p) x = Inr (mu, sigma)
    \<and> (\<exists>epsilon z.
          randn_like g sigma = (epsilon, g')
        \<and> has_shape (length x) z_dim epsilon
        \<and> has_shape (length x) z_dim z
        \<and> (\<forall>r < length x. \<forall>i < z_dim.
              epsilon ! r ! i = g (r * z_dim + i)
            \<and> z ! r ! i = mu ! r ! i + sigma ! r ! i * epsilon ! r ! i)
        \<and> decode (init input_dim h_dim z_dim p) z = Inr x_reconstructed)"
proof -
  let ?M = "init input_dim h_dim z_dim p"
  from assms obtain mu' sigma' where e': "encode ?M x = Inr (mu', sigma')"
    by (auto simp: forward_def split: sum.splits)
  define epsilon where "epsilon = fst (randn_like g sigma')"
  define z where "z = tensor_add mu' (tensor_mul sigma' epsilon)"
  from assms e' have eq: "mu' = mu" "sigma' = sigma" "g' = snd (randn_like g sigma')"
    and d: "decode ?M z = Inr x_reconstructed"
    by (auto simp: forward_def z_def epsilon_def split: sum.splits prod.splits)
  from e' eq have e: "encode ?M x = Inr (mu, sigma)" by simp
  from encode_init_shape [OF e] have smu: "has_shape (length x) z_dim mu"
    and ssigma: "has_shape (length x) z_dim sigma" by simp_all
  have r: "randn_like g sigma = (epsilon, g')"
    using eq by (simp add: epsilon_def)
  have eps: "epsilon = fill g sigma"
    using eq by (simp add: epsilon_def randn_like_def)
  have seps: "has_shape (length x) z_dim epsilon"
    using ssigma by (simp add: eps has_shape_fill)
  have sprod: "has_shape (length x) z_dim (tensor_mul sigma epsilon)"
    unfolding tensor_mul_def using ssigma seps by (rule has_shape_pointwise)
  have sz: "has_shape (length x) z_dim z"
    unfolding z_def tensor_add_def eq using smu sprod by (rule has_shape_pointwise)
  have "epsilon ! r ! i = g (r * z_dim + i)
      \<and> z ! r ! i = mu ! r ! i + sigma ! r ! i * epsilon ! r ! i"
    if "r < length x" "i < z_dim" for r i
  proof
    show "epsilon ! r ! i = g (r * z_dim + i)"
      unfolding eps using ssigma that by (rule fill_nth)
    have "z ! r ! i = mu ! r ! i + tensor_mul sigma epsilon ! r ! i"
      unfolding z_def tensor_add_def eq using smu sprod that by (rule pointwise_nth)
    also have "tensor_mul sigma epsilon ! r ! i = sigma ! r ! i * epsilon ! r ! i"
      unfolding tensor_mul_def using ssigma seps that by (rule pointwise_nth)
    finally show "z ! r ! i = mu ! r ! i + sigma ! r ! i * epsilon ! r ! i" .
  qed
  with e r seps sz d show ?thesis by blast
qed

lemma forward_example:
  "forward (init 1 1 1 example_parameters) [[5]] (\<lambda>k. 3) = (Inr ([[1 / 2]], [[1]], [[2]]), \<lambda>k. 3)"
  by (simp add: forward_def encode_def decode_def init_def nn_Linear_def Linear_forward_def
      example_parameters_def relu_def sigmoid_def dot_def randn_like_def numel_def
      tensor_add_def tensor_mul_def pointwise_def)

theorem forward_reparametrized_witness:
  "forward (init 1 1 1 example_parameters) [[5]] (\<lambda>k. 3) = (Inr ([[1 / 2]], [[1]], [[2]]), \<lambda>k. 3)
   \<and> encode (init 1 1 1 example_parameters) [[5]] = Inr ([[1]], [[2]])
   \<and> decode (init 1 1 1 example_parameters) [[1 + 2 * 3]] = Inr [[1 / 2]]"
proof -
  note w = forward_reparametrized [OF forward_example]
  then obtain epsilon z where "has_shape 1 1 epsilon" "has_shape 1 1 z"
    and "epsilon ! 0 ! 0 = 3 \<and> z ! 0 ! 0 = 1 + 2 * epsilon ! 0 ! 0"
    and d: "decode (init 1 1 1 example_parameters) z = Inr [[1 / 2]]"
    by auto
  then have "z = [[1 + 2 * 3]]"
    by (auto simp: has_shape_def length_Suc_conv)
  with d w forward_example show ?thesis by simp
qed

text \<open>
  C5: two forward passes of one model on one input, with generators that supply the same
  noise (they agree on the draws the pass takes), give the same reconstruction, mean and
  spread, or the same error.
\<close>

theorem forward_deterministic:
  assumes "\<forall>k < length x * z_dim. g1 k = g2 k"
  shows "fst (forward (init input_dim h_dim z_dim p) x g1)
       = fst (forward (init input_dim h_dim z_dim p) x g2)"
proof (cases "encode (init input_dim h_dim z_dim p) x")
  case (Inl e)
  then show ?thesis by (simp add: forward_def)
next
  case (Inr ms)
  obtain mu sigma where ms: "ms = (mu, sigma)" by (cases ms)
  from encode_init_shape [OF Inr [unfolded ms]]
  have "has_shape (length x) z_dim sigma" by simp
  then have "numel sigma = length x * z_dim" by (rule has_shape_numel)
  with assms have "fill g1 sigma = fill g2 sigma"
    by (intro fill_cong) simp
  with Inr ms show ?thesis
    by (simp add: forward_def randn_like_def split: sum.splits)
qed

theorem forward_deterministic_witness:
  "fst (forward (init 1 1 1 example_parameters) [[5]] (\<lambda>k. if k = 0 then 3 else 4))
   = Inr ([[1 / 2]], [[1]], [[2]])"
proof -
  have "\<forall>k < length [[5 :: real]] * 1. (if k = 0 then 3 else 4 :: real) = 3"
    by simp
  from forward_deterministic [OF this, of 1 1 example_parameters] forward_example
  show ?thesis by simp
qed

section \<open>The composite loss\<close>

lemma train_loss_init:
  assumes "has_shape b INPUT_DIM x"
  shows "\<exists>out. forward (init INPUT_DIM h_dim z_dim p) x g = (Inr out, \<lambda>k. g (b * z_dim + k))
         \<and> train_loss (init INPUT_DIM h_dim z_dim p) loss_fn alpha x g
             = (Inr (batch_loss loss_fn alpha x out), \<lambda>k. g (b * z_dim + k))"
proof -
  from forward_init [OF assms, of h_dim z_dim p g] obtain out
    where f: "forward (init INPUT_DIM h_dim z_dim p) x g = (Inr out, \<lambda>k. g (b * z_dim + k))"
    by blast
  from assms have "view_batch x = Inr x"
    by (simp add: view_batch_def has_shape_def)
  with f show ?thesis by (simp add: train_loss_def)
qed

text \<open>
  C4: where the divergence term is a number \<open>k\<close>, the loss of the batch is
  \<open>alpha * reconstruction_term + (1 - alpha) * k\<close>. With \<open>alpha = 1\<close> it is the
  reconstruction term alone; the derivative of the loss in the divergence term is
  \<open>1 - alpha\<close>, which is 0 then; and as a function of any parameter, through any
  reconstruction term \<open>R\<close> and any divergence term \<open>K\<close>, the loss has the derivative of
  \<open>R\<close>, so that the divergence term adds nothing to a gradient.
\<close>

theorem composite_loss_mixing:
  assumes "kl_div mu sigma = Some k"
  shows "batch_loss loss_fn alpha x (x_reconstructed, mu, sigma)
           = Some (alpha * loss_fn x_reconstructed x + (1 - alpha) * k)
    \<and> batch_loss loss_fn 1 x (x_reconstructed, mu, sigma) = Some (loss_fn x_reconstructed x)
    \<and> (loss alpha r has_real_derivative (1 - alpha)) (at k)
    \<and> (loss 1 r has_real_derivative 0) (at k)
    \<and> (\<forall>R K R' \<theta>. (R has_real_derivative R') (at \<theta>)
          \<longrightarrow> ((\<lambda>t. loss 1 (R t) (K t)) has_real_derivative R') (at \<theta>))"
proof -
  have 1: "batch_loss loss_fn a x (x_reconstructed, mu, sigma)
      = Some (a * loss_fn x_reconstructed x + (1 - a) * k)" for a
    using assms by (simp add: batch_loss_def loss_def)
  have 2: "(loss a r has_real_derivative (1 - a)) (at k)" for a
    unfolding loss_def by (auto intro!: derivative_eq_intros)
  have 3: "(\<lambda>t. loss 1 (R t) (K t)) = R" for R K :: "real \<Rightarrow> real"
    by (simp add: loss_def)
  show ?thesis
    using 1 [of alpha] 1 [of 1] 2 [of alpha] 2 [of 1] by (simp add: 3)
qed

theorem composite_loss_mixing_witness:
  "kl_div [[1]] [[1]] = Some 1
   \<and> batch_loss (\<lambda>a b. 6) (1 / 4) [[0]] ([[1 / 2]], [[1]], [[1]]) = Some (9 / 4)
   \<and> batch_loss (\<lambda>a b. 6) 1 [[0]] ([[1 / 2]], [[1]], [[1]]) = Some 6"
proof -
  have h: "kl_div [[1]] [[1]] = Some 1"
    by (simp add: kl_div_def torch_log_def pow2_def torch_sum_def tensor_sub_def
        pointwise_def scalar_add_def)
  from composite_loss_mixing [OF h, of "\<lambda>a b. 6" "1 / 4" "[[0]]" "[[1 / 2]]"] h
  show ?thesis by simp
qed
















section \<open>The scan of the conditional generator\<close>

lemma first_after_Nil: "first_after n k [] = []"
  by (simp add: first_after.simps)

lemma first_after_Cons:
  "first_after n k ((x, y) # ds) =
     (if k = n then [] else if y = int k then x # first_after n (k + 1) ds
      else first_after n k ds)"
  by (subst first_after.simps, subst (3) first_after.simps) simp

lemma scan_first_after:
  "idx < n \<Longrightarrow>
     scan n imgs idx ds = (imgs @ first_after n idx ds, idx + length (first_after n idx ds))"
proof (induction ds arbitrary: imgs idx)
  case Nil
  show ?case by (simp add: first_after_Nil)
next
  case (Cons a ds)
  obtain x y where a: "a = (x, y)" by (cases a)
  show ?case
  proof (cases "y = int idx")
    case False
    with Cons show ?thesis
      by (simp add: a first_after_Cons)
  next
    case True
    show ?thesis
    proof (cases "idx + 1 = n")
      case True
      with \<open>y = int idx\<close> Cons.prems show ?thesis
        by (simp add: a first_after_Cons [of n idx] first_after.simps [of n n])
    next
      case False
      with Cons.prems have "idx + 1 < n" by simp
      from Cons.IH [OF this, of "imgs @ [x]"] \<open>y = int idx\<close> False Cons.prems
      show ?thesis
        by (simp add: a first_after_Cons [of n idx])
    qed
  qed
qed

lemma length_first_after_le: "k \<le> n \<Longrightarrow> length (first_after n k ds) \<le> n - k"
proof (induction ds arbitrary: k)
  case Nil
  show ?case by (simp add: first_after_Nil)
next
  case (Cons a ds)
  obtain x y where a: "a = (x, y)" by (cases a)
  show ?case
  proof (cases "k = n")
    case True
    then show ?thesis by (simp add: a first_after_Cons)
  next
    case False
    with Cons.prems have "k + 1 \<le> n" by simp
    from Cons.IH [OF this] Cons.IH [OF Cons.prems] False Cons.prems show ?thesis
      by (auto simp: a first_after_Cons)
  qed
qed

lemma length_first_after_iff:
  "k \<le> n \<Longrightarrow>
     length (first_after n k ds) = n - k \<longleftrightarrow> subseq (map int [k..<n]) (map snd ds)"
proof (induction ds arbitrary: k)
  case Nil
  have "subseq (map int [k..<n]) [] \<longleftrightarrow> [k..<n] = []"
    by (auto dest: list_emb_Nil2)
  with Nil show ?case by (auto simp: first_after_Nil)
next
  case (Cons a ds)
  obtain x y where a: "a = (x, y)" by (cases a)
  show ?case
  proof (cases "k = n")
    case True
    then show ?thesis by (simp add: a first_after_Cons)
  next
    case False
    with Cons.prems have lt: "k < n" and le: "k + 1 \<le> n" by simp_all
    from lt have u: "[k..<n] = k # [k + 1..<n]" by (simp add: upt_conv_Cons)
    show ?thesis
    proof (cases "y = int k")
      case True
      with Cons.IH [OF le] False lt show ?thesis
        by (simp add: a first_after_Cons u del: upt.simps) arith
    next
      case False
      with Cons.IH [OF Cons.prems] \<open>k \<noteq> n\<close> show ?thesis
        by (simp add: a first_after_Cons u del: upt.simps)
    qed
  qed
qed

text \<open>
  C10: the scan keeps an element only when its label is the number of elements kept so
  far. With at least one label requested, what it keeps is, for \<open>k = 0, 1, ...\<close>, the first
  element of label \<open>k\<close> after the element kept for \<open>k - 1\<close>; and it collects
  \<open>len_labels\<close> exemplars exactly when the labels \<open>0, 1, ..., len_labels - 1\<close> occur in
  the stream in this order, at increasing positions.
\<close>

theorem scan_first_after_in_order:
  assumes "0 < len_labels"
  shows "scan len_labels [] 0 dataset
           = (first_after len_labels 0 dataset, length (first_after len_labels 0 dataset))
    \<and> (snd (scan len_labels [] 0 dataset) = len_labels
         \<longleftrightarrow> subseq (map int [0..<len_labels]) (map snd dataset))"
  using scan_first_after [OF assms, of "[]" dataset]
    length_first_after_iff [of 0 len_labels dataset]
  by simp

theorem scan_first_after_in_order_witness:
  "scan 2 [] 0 [([1], 1), ([2], 0), ([3], 1 :: int)] = ([[2], [3 :: real]], 2)
   \<and> subseq (map int [0..<2]) (map snd [([1 :: real], 1), ([2], 0), ([3], 1 :: int)])
   \<and> first_after 2 0 [([1], 1), ([2], 0), ([3], 1 :: int)] = [[2], [3 :: real]]"
proof -
  have h: "0 < (2 :: nat)" by simp
  have f: "first_after 2 0 [([1], 1), ([2], 0), ([3], 1 :: int)] = [[2], [3 :: real]]"
    by code_simp
  from scan_first_after_in_order [OF h, of "[([1 :: real], 1), ([2], 0), ([3], 1 :: int)]"] f
  show ?thesis by simp
qed

lemma scan_map:
  "scan n (map f imgs) idx (map (\<lambda>(x, y). (f x, y)) ds)
     = (map f (fst (scan n imgs idx ds)), snd (scan n imgs idx ds))"
proof (induction ds arbitrary: imgs idx)
  case Nil
  show ?case by simp
next
  case (Cons a ds)
  obtain x y where a: "a = (x, y)" by (cases a)
  show ?case
    by (simp add: a Cons.IH [of "imgs @ [x]", simplified] Cons.IH)
qed

lemma untagged: "map (\<lambda>(p, y). (fst p, y)) (tagged ds) = ds"
  by (induction ds) (auto simp: tagged_def)

lemma scan_tagged:
  "scan n [] 0 ds = (map fst (fst (scan n [] 0 (tagged ds))), snd (scan n [] 0 (tagged ds)))"
  using scan_map [of n fst "[]" 0 "tagged ds"] by (simp add: untagged)

lemma first_after_tagged_subseq: "subseq (first_after n k (tagged ds)) ds"
proof (induction ds arbitrary: k)
  case Nil
  show ?case by (simp add: tagged_def first_after_Nil)
next
  case (Cons a ds)
  obtain x y where a: "a = (x, y)" by (cases a)
  have t: "tagged ((x, y) # ds) = ((x, y), y) # tagged ds"
    by (simp add: tagged_def)
  from Cons [of k] Cons [of "k + 1"] show ?case
    unfolding a by (auto simp: t first_after_Cons)
qed

lemma first_after_tagged_labels:
  "map snd (first_after n k (tagged ds)) = map int [k..<k + length (first_after n k (tagged ds))]"
proof (induction ds arbitrary: k)
  case Nil
  show ?case by (simp add: tagged_def first_after_Nil)
next
  case (Cons a ds)
  obtain x y where a: "a = (x, y)" by (cases a)
  have t: "tagged ((x, y) # ds) = ((x, y), y) # tagged ds"
    by (simp add: tagged_def)
  from Cons [of k] Cons [of "k + 1"] show ?case
    unfolding a by (simp add: t first_after_Cons upt_conv_Cons del: upt.simps)
qed

lemma py_index_nonneg:
  "py_index xs i = Inr v \<Longrightarrow> 0 \<le> i \<Longrightarrow> nat i < length xs \<and> xs ! nat i = v"
  by (auto simp: py_index_def Let_def split: if_splits)

lemma encodings_loop_Inr:
  "encodings_loop m images ds acc = Inr encs \<Longrightarrow>
     length encs = length acc + length ds
   \<and> take (length acc) encs = acc
   \<and> (\<forall>j < length ds. ds ! j < length images
         \<and> length (images ! (ds ! j)) = 784
         \<and> encode m [images ! (ds ! j)] = Inr (encs ! (length acc + j)))"
proof (induction ds arbitrary: acc)
  case Nil
  then show ?case by simp
next
  case (Cons d ds)
  from Cons.prems obtain ms where d: "d < length images" "length (images ! d) = 784"
    and e: "encode m [images ! d] = Inr ms"
    and rest: "encodings_loop m images ds (acc @ [ms]) = Inr encs"
    by (auto simp: py_index_def view_1_784_def split: sum.splits if_splits)
  from Cons.IH [OF rest] have l: "length encs = length acc + 1 + length ds"
    and t: "take (length acc + 1) encs = acc @ [ms]"
    and r: "\<forall>j < length ds. ds ! j < length images \<and> length (images ! (ds ! j)) = 784
         \<and> encode m [images ! (ds ! j)] = Inr (encs ! (length acc + 1 + j))"
    by simp_all
  have "take (length acc) (take (length acc + 1) encs) = take (length acc) (acc @ [ms])"
    by (simp only: t)
  then have t': "take (length acc) encs = acc"
    by simp
  have "take (length acc + 1) encs ! length acc = (acc @ [ms]) ! length acc"
    by (simp only: t)
  then have n: "encs ! length acc = ms"
    by simp
  have "(d # ds) ! j < length images \<and> length (images ! ((d # ds) ! j)) = 784
         \<and> encode m [images ! ((d # ds) ! j)] = Inr (encs ! (length acc + j))"
    if "j < length (d # ds)" for j
  proof (cases j)
    case 0
    with d e n show ?thesis by simp
  next
    case (Suc j')
    with that r show ?thesis by simp
  qed
  with l t' show ?case by simp
qed

lemma exemplar_encoding_Inr:
  assumes "exemplar_encoding m n ds label = Inr (mu, sigma)" and "0 \<le> label"
  shows "nat label < n \<and> n \<le> length (fst (scan n [] 0 ds))
    \<and> encode m [fst (scan n [] 0 ds) ! nat label] = Inr (mu, sigma)"
proof -
  obtain images idx where s: "scan n [] 0 ds = (images, idx)"
    by (cases "scan n [] 0 ds")
  with assms(1) obtain encs where l: "encodings_loop m images [0..<n] [] = Inr encs"
    and p: "py_index encs label = Inr (mu, sigma)"
    by (auto simp: exemplar_encoding_def split: sum.splits)
  from encodings_loop_Inr [OF l] have len: "length encs = n"
    and all: "\<forall>j < n. j < length images \<and> encode m [images ! j] = Inr (encs ! j)"
    by simp_all
  from py_index_nonneg [OF p assms(2)] len
  have lt: "nat label < n" and v: "encs ! nat label = (mu, sigma)" by simp_all
  have "n \<le> length images"
  proof (cases n)
    case 0
    then show ?thesis by simp
  next
    case (Suc n')
    with all have "n' < length images" by simp
    with Suc show ?thesis by simp
  qed
  with lt v all s show ?thesis by simp
qed

text \<open>
  C7, as the code has it: with at least one label requested, the scan keeps elements in
  the order of the stream, at most \<open>len_labels\<close> of them, and the element kept at
  position \<open>k\<close> has label \<open>k\<close>; it need not be the first element of that label. When
  an encoding is chosen for a label \<open>L \<ge> 0\<close>, all \<open>len_labels\<close> exemplars have been
  collected, \<open>L < len_labels\<close>, and the encoding is that of the exemplar kept at position
  \<open>L\<close>, whose label is \<open>L\<close>.
\<close>

theorem scan_keeps_label_of_position:
  assumes "0 < len_labels" and "scan len_labels [] 0 (tagged dataset) = (kept, idx)"
  shows "scan len_labels [] 0 dataset = (map fst kept, idx)
    \<and> subseq kept dataset
    \<and> length kept = idx
    \<and> idx \<le> len_labels
    \<and> map snd kept = map int [0..<idx]
    \<and> (\<forall>label mu sigma.
          0 \<le> label \<longrightarrow> exemplar_encoding model len_labels dataset label = Inr (mu, sigma)
          \<longrightarrow> idx = len_labels \<and> label < int len_labels
              \<and> snd (kept ! nat label) = label
              \<and> encode model [fst (kept ! nat label)] = Inr (mu, sigma))"
proof -
  from scan_first_after [OF assms(1), of "[]" "tagged dataset"] assms(2)
  have k: "kept = first_after len_labels 0 (tagged dataset)" and i: "idx = length kept"
    by simp_all
  have 1: "scan len_labels [] 0 dataset = (map fst kept, idx)"
    using scan_tagged [of len_labels dataset] assms(2) by simp
  have 2: "subseq kept dataset"
    unfolding k by (rule first_after_tagged_subseq)
  have 3: "idx \<le> len_labels"
    using length_first_after_le [of 0 len_labels "tagged dataset"] k i by simp
  have 4: "map snd kept = map int [0..<idx]"
    using first_after_tagged_labels [of len_labels 0 dataset] k i by simp
  have 5: "idx = len_labels \<and> label < int len_labels \<and> snd (kept ! nat label) = label
      \<and> encode model [fst (kept ! nat label)] = Inr (mu, sigma)"
    if l: "0 \<le> label" and e: "exemplar_encoding model len_labels dataset label = Inr (mu, sigma)"
    for label mu sigma
  proof -
    note x = exemplar_encoding_Inr [OF e l, unfolded 1 fst_conv length_map]
    from x have lt: "nat label < len_labels" by (rule conjunct1)
    from x have le: "len_labels \<le> length kept" by (rule conjunct2 [THEN conjunct1])
    from x have enc': "encode model [map fst kept ! nat label] = Inr (mu, sigma)"
      by (rule conjunct2 [THEN conjunct2])
    from lt le have "map fst kept ! nat label = fst (kept ! nat label)"
      by simp
    with enc' have enc: "encode model [fst (kept ! nat label)] = Inr (mu, sigma)"
      by simp
    from le 3 i have eq: "idx = len_labels" by simp
    from lt le have "map snd kept ! nat label = snd (kept ! nat label)"
      by simp
    with 4 lt eq l have "snd (kept ! nat label) = label"
      by simp
    with lt le enc eq l show ?thesis by simp
  qed
  from 1 2 3 4 5 i show ?thesis by blast
qed

section \<open>The run of the conditional generator\<close>

lemma first_after_subset: "set (first_after n k ds) \<subseteq> fst ` set ds"
proof (induction ds arbitrary: k)
  case Nil
  show ?case by (simp add: first_after_Nil)
next
  case (Cons a ds)
  obtain x y where a: "a = (x, y)" by (cases a)
  from Cons [of k] Cons [of "k + 1"] show ?case
    unfolding a by (auto simp: first_after_Cons)
qed

lemma scan_images_784:
  assumes "0 < n" and "\<forall>(x, y) \<in> set ds. length x = 784"
  shows "\<forall>img \<in> set (fst (scan n [] 0 ds)). length img = 784"
proof -
  have "set (fst (scan n [] 0 ds)) \<subseteq> fst ` set ds"
    using scan_first_after [OF assms(1), of "[]" ds] first_after_subset [of n 0 ds] by simp
  with assms(2) show ?thesis by fastforce
qed

lemma view_1_784_shape: "length img = 784 \<Longrightarrow> view_1_784 img = Inr [img] \<and> has_shape 1 784 [img]"
  by (simp add: view_1_784_def has_shape_def)

lemma encodings_loop_init:
  assumes "\<forall>d \<in> set ds. d < length images \<and> length (images ! d) = 784"
  shows "\<exists>encs. encodings_loop (init 784 h_dim z_dim p) images ds acc = Inr (acc @ encs)
           \<and> length encs = length ds
           \<and> (\<forall>(mu, sigma) \<in> set encs. has_shape 1 z_dim mu \<and> has_shape 1 z_dim sigma)"
  using assms
proof (induction ds arbitrary: acc)
  case Nil
  then show ?case by simp
next
  case (Cons d ds)
  then have d: "d < length images" and l: "length (images ! d) = 784" by simp_all
  from view_1_784_shape [OF l] have v: "view_1_784 (images ! d) = Inr [images ! d]"
    and s: "has_shape 1 784 [images ! d]" by simp_all
  from encode_init [OF s, of h_dim z_dim p] obtain mu sigma
    where e: "encode (init 784 h_dim z_dim p) [images ! d] = Inr (mu, sigma)"
      and sh: "has_shape 1 z_dim mu" "has_shape 1 z_dim sigma"
    by blast
  from Cons.prems have "\<forall>d \<in> set ds. d < length images \<and> length (images ! d) = 784"
    by simp
  from Cons.IH [OF this, of "acc @ [(mu, sigma)]"] obtain encs
    where r: "encodings_loop (init 784 h_dim z_dim p) images ds (acc @ [(mu, sigma)])
        = Inr (acc @ (mu, sigma) # encs)"
      and n: "length encs = length ds"
      and a: "\<forall>(mu, sigma) \<in> set encs. has_shape 1 z_dim mu \<and> has_shape 1 z_dim sigma"
    by auto
  from d v e r have "encodings_loop (init 784 h_dim z_dim p) images (d # ds) acc
      = Inr (acc @ (mu, sigma) # encs)"
    by (simp add: py_index_def)
  with n a sh show ?case
    by (intro exI [of _ "(mu, sigma) # encs"]) simp
qed

lemma encodings_loop_short:
  assumes "\<forall>img \<in> set images. length img = 784" and "a \<le> length images"
    and "length images < n"
  shows "encodings_loop (init 784 h_dim z_dim p) images [a..<n] acc = Inl IndexError"
  using assms(2)
proof (induction "length images - a" arbitrary: a acc)
  case 0
  with assms(3) have a: "a = length images" and u: "[a..<n] = a # [a + 1..<n]"
    by (simp_all add: upt_conv_Cons)
  show ?case
    unfolding u by (simp add: py_index_def a)
next
  case (Suc k)
  then have d: "a < length images" by simp
  with assms(3) have u: "[a..<n] = a # [a + 1..<n]"
    by (simp add: upt_conv_Cons)
  from d assms(1) have l: "length (images ! a) = 784" by simp
  from view_1_784_shape [OF l] have v: "view_1_784 (images ! a) = Inr [images ! a]"
    and s: "has_shape 1 784 [images ! a]" by simp_all
  from encode_init [OF s, of h_dim z_dim p] obtain ms
    where e: "encode (init 784 h_dim z_dim p) [images ! a] = Inr ms"
    by blast
  from Suc(2) d have "k = length images - (a + 1)" "a + 1 \<le> length images" by simp_all
  from Suc(1) [OF this, of "acc @ [ms]"] d v e show ?case
    unfolding u by (simp add: py_index_def)
qed

lemma examples_loop_paths:
  "examples_loop m folder label mu sigma exs (g, files) = (Inr u, (g', files')) \<Longrightarrow>
     map fst files' = map fst files @ map (path folder label) exs"
proof (induction exs arbitrary: g files)
  case Nil
  then show ?case by simp
next
  case (Cons ex exs)
  from Cons.prems obtain g1 out
    where "examples_loop m folder label mu sigma exs (g1, files @ [(path folder label ex, out)])
        = (Inr u, (g', files'))"
    by (auto split: prod.splits sum.splits)
  from Cons.IH [OF this] show ?case by simp
qed

lemma examples_loop_prefix:
  "prefix files (snd (snd (examples_loop m folder label mu sigma exs (g, files))))"
proof (induction exs arbitrary: g files)
  case Nil
  show ?case by simp
next
  case (Cons ex exs)
  have "prefix files (files @ [f])" for f :: "string \<times> tensor"
    by simp
  then have "prefix files (snd (snd (examples_loop m folder label mu sigma exs (g1, files @ [f]))))"
    for g1 f
    using Cons.IH [of "files @ [f]" g1] by (rule prefix_order.trans)
  then show ?case
    by (auto split: prod.splits sum.splits)
qed

lemma view_m1_1_28_28_shape: "has_shape 1 784 out \<Longrightarrow> view_m1_1_28_28 out = Inr out"
proof -
  assume "has_shape 1 784 out"
  then obtain row where o: "out = [row]" and l: "length row = 784"
    by (auto simp: has_shape_def length_Suc_conv)
  have "[0..<Suc 0] = [0]" by simp
  moreover from l have "row \<noteq> []" by auto
  ultimately show ?thesis using l
    unfolding o by (simp add: view_m1_1_28_28_def)
qed

lemma examples_loop_init:
  assumes "has_shape 1 z_dim mu" and "has_shape 1 z_dim sigma"
  shows "fst (examples_loop (init 784 h_dim z_dim p) folder label mu sigma exs w) = Inr ()"
proof (induction exs arbitrary: w)
  case Nil
  show ?case by simp
next
  case (Cons ex exs)
  obtain g files where w: "w = (g, files)" by (cases w)
  have "has_shape 1 z_dim (tensor_mul sigma (fill g sigma))"
    unfolding tensor_mul_def using assms(2)
    by (intro has_shape_pointwise) (simp_all add: has_shape_fill)
  with assms(1) have "has_shape 1 z_dim (tensor_add mu (tensor_mul sigma (fill g sigma)))"
    unfolding tensor_add_def by (intro has_shape_pointwise)
  from decode_in_shape [OF this, of 784 h_dim p] obtain out
    where d: "decode (init 784 h_dim z_dim p) (tensor_add mu (tensor_mul sigma (fill g sigma)))
        = Inr out"
      and o: "has_shape 1 784 out"
    by blast
  from d view_m1_1_28_28_shape [OF o] Cons.IH show ?case
    by (simp add: w randn_like_def)
qed

lemma exemplar_encoding_short:
  assumes "0 < n" and "\<forall>(x, y) \<in> set ds. length x = 784" and "snd (scan n [] 0 ds) < n"
  shows "exemplar_encoding (init 784 h_dim z_dim p) n ds label = Inl IndexError"
proof -
  obtain images idx where s: "scan n [] 0 ds = (images, idx)"
    by (cases "scan n [] 0 ds")
  with scan_first_after [OF assms(1), of "[]" ds] have "idx = length images" by simp
  with assms(3) s have "length images < n" by simp
  moreover from scan_images_784 [OF assms(1,2)] s
  have "\<forall>img \<in> set images. length img = 784" by simp
  ultimately have "encodings_loop (init 784 h_dim z_dim p) images [0..<n] [] = Inl IndexError"
    by (intro encodings_loop_short) simp_all
  with s show ?thesis by (simp add: exemplar_encoding_def)
qed

lemma exemplar_encoding_init:
  assumes "0 < n" and "\<forall>(x, y) \<in> set ds. length x = 784" and "snd (scan n [] 0 ds) = n"
    and "- int n \<le> label" and "label < int n"
  shows "\<exists>mu sigma. exemplar_encoding (init 784 h_dim z_dim p) n ds label = Inr (mu, sigma)
           \<and> has_shape 1 z_dim mu \<and> has_shape 1 z_dim sigma"
proof -
  obtain images idx where s: "scan n [] 0 ds = (images, idx)"
    by (cases "scan n [] 0 ds")
  with scan_first_after [OF assms(1), of "[]" ds] have "idx = length images" by simp
  with assms(3) s have len: "length images = n" by simp
  from scan_images_784 [OF assms(1,2)] s
  have "\<forall>img \<in> set images. length img = 784" by simp
  with len have "\<forall>d \<in> set [0..<n]. d < length images \<and> length (images ! d) = 784"
    by simp
  from encodings_loop_init [OF this, of h_dim z_dim p "[]"] obtain encs
    where e: "encodings_loop (init 784 h_dim z_dim p) images [0..<n] [] = Inr encs"
      and l: "length encs = n"
      and a: "\<forall>(mu, sigma) \<in> set encs. has_shape 1 z_dim mu \<and> has_shape 1 z_dim sigma"
    by auto
  define j where "j = (if label < 0 then int n + label else label)"
  from assms(4,5) have j: "0 \<le> j" "j < int n" by (simp_all add: j_def)
  with l have p: "py_index encs label = Inr (encs ! nat j)"
    by (simp add: py_index_def j_def Let_def)
  from j l have "encs ! nat j \<in> set encs" by simp
  with a have "has_shape 1 z_dim (fst (encs ! nat j)) \<and> has_shape 1 z_dim (snd (encs ! nat j))"
    by (auto simp: case_prod_beta)
  moreover from s e p
  have "exemplar_encoding (init 784 h_dim z_dim p) n ds label
      = Inr (fst (encs ! nat j), snd (encs ! nat j))"
    by (simp add: exemplar_encoding_def)
  ultimately show ?thesis by blast
qed

lemma generate_paths:
  "generate m n folder ds n_examples label (g, files) = (Inr u, (g', files')) \<Longrightarrow>
     map fst files' = map fst files @ map (path folder label) [0..<nat n_examples]"
  by (auto simp: generate_def split: sum.splits dest: examples_loop_paths)

lemma generate_prefix:
  "prefix (snd w) (snd (snd (generate m n folder ds n_examples label w)))"
proof -
  obtain g files where w: "w = (g, files)" by (cases w)
  show ?thesis
    unfolding w using examples_loop_prefix [of files m folder label _ _ _ g]
    by (auto simp: generate_def split: sum.splits)
qed

lemma labels_loop_paths:
  "labels_loop m n folder ds n_examples ls (g, files) = (Inr u, (g', files')) \<Longrightarrow>
     map fst files' = map fst files
       @ concat (map (\<lambda>label. map (path folder label) [0..<nat n_examples]) ls)"
proof (induction ls arbitrary: g files)
  case Nil
  then show ?case by simp
next
  case (Cons l ls)
  from Cons.prems obtain v g1 files1
    where 1: "generate m n folder ds n_examples l (g, files) = (Inr v, (g1, files1))"
      and 2: "labels_loop m n folder ds n_examples ls (g1, files1) = (Inr u, (g', files'))"
    by (auto split: prod.splits sum.splits)
  from generate_paths [OF 1] Cons.IH [OF 2] show ?case by simp
qed

lemma labels_loop_prefix:
  "prefix (snd w) (snd (snd (labels_loop m n folder ds n_examples ls w)))"
proof (induction ls arbitrary: w)
  case Nil
  show ?case by simp
next
  case (Cons l ls)
  obtain r w1 where g: "generate m n folder ds n_examples l w = (r, w1)"
    by (cases "generate m n folder ds n_examples l w")
  from generate_prefix [of w m n folder ds n_examples l] g
  have p: "prefix (snd w) (snd w1)" by simp
  show ?case
  proof (cases r)
    case (Inl e)
    with g p show ?thesis by simp
  next
    case (Inr v)
    from p Cons.IH [of w1] have "prefix (snd w) (snd (snd (labels_loop m n folder ds n_examples ls w1)))"
      by (rule prefix_order.trans)
    with g Inr show ?thesis by simp
  qed
qed

lemma labels_loop_append:
  "labels_loop m n folder ds n_examples (ls1 @ ls2) w =
     (case labels_loop m n folder ds n_examples ls1 w of
        (Inl e, w1) \<Rightarrow> (Inl e, w1)
      | (Inr u, w1) \<Rightarrow> labels_loop m n folder ds n_examples ls2 w1)"
  by (induction ls1 arbitrary: w) (auto split: prod.splits sum.splits)

lemma labels_loop_init:
  assumes "0 < n" and "\<forall>(x, y) \<in> set ds. length x = 784" and "snd (scan n [] 0 ds) = n"
    and "\<forall>label \<in> set ls. - int n \<le> label \<and> label < int n"
  shows "fst (labels_loop (init 784 h_dim z_dim p) n folder ds n_examples ls w) = Inr ()"
  using assms(4)
proof (induction ls arbitrary: w)
  case Nil
  show ?case by simp
next
  case (Cons l ls)
  then have "- int n \<le> l" "l < int n" by simp_all
  from exemplar_encoding_init [OF assms(1-3) this, of h_dim z_dim p] obtain mu sigma
    where e: "exemplar_encoding (init 784 h_dim z_dim p) n ds l = Inr (mu, sigma)"
      and sh: "has_shape 1 z_dim mu" "has_shape 1 z_dim sigma"
    by blast
  obtain r w1 where g: "generate (init 784 h_dim z_dim p) n folder ds n_examples l w = (r, w1)"
    by (cases "generate (init 784 h_dim z_dim p) n folder ds n_examples l w")
  with e examples_loop_init [OF sh, of h_dim p folder l "[0..<nat n_examples]" w]
  have "r = Inr ()" by (simp add: generate_def)
  moreover from Cons have "fst (labels_loop (init 784 h_dim z_dim p) n folder ds n_examples ls w1) = Inr ()"
    by simp
  ultimately show ?case using g by simp
qed

lemma length_example_image: "length (example_image c) = 784"
  by (simp add: example_image_def)

lemma length_concat_paths:
  "length (concat (map (\<lambda>label. map (f label) [0..<k]) ls)) = length ls * k"
  by (induction ls) simp_all

text \<open>
  C9: a run of the generator that returns normally, for a count of examples that is not
  negative, has called \<open>save_image\<close> once per label and example, in this order, on the
  path that names the label and the index of the example: \<open>|labels| * n_examples\<close> images.
\<close>

theorem inference_emits_per_label:
  assumes "inference model labels folder dataset n_examples (g, files) = (Inr u, (g', files'))"
    and "0 \<le> n_examples"
  shows "map fst files' = map fst files
           @ concat (map (\<lambda>label. map (path folder label) [0..<nat n_examples]) labels)
    \<and> int (length files') = int (length files) + int (length labels) * n_examples"
proof -
  from assms(1) have p: "map fst files' = map fst files
      @ concat (map (\<lambda>label. map (path folder label) [0..<nat n_examples]) labels)"
    unfolding inference_def by (rule labels_loop_paths)
  have "length files' = length (map fst files')" by simp
  also have "\<dots> = length files + length labels * nat n_examples"
    unfolding p by (simp add: length_concat_paths)
  finally show ?thesis using p assms(2) by simp
qed

lemma scenario_B_dataset:
  "\<forall>(x, y) \<in> set [(example_image 0, 0), (example_image 1, 1 :: int)]. length x = 784"
  by (simp add: length_example_image)

lemma scenario_B_scan:
  "snd (scan 2 [] 0 [(example_image 0, 0), (example_image 1, 1)]) = 2"
  by simp

lemma scenario_B_paths:
  "concat (map (\<lambda>label. map (path ''generated'' label) [0..<nat 3]) [0, 1]) =
     [''generated/label_0_0.png'', ''generated/label_0_1.png'', ''generated/label_0_2.png'',
      ''generated/label_1_0.png'', ''generated/label_1_1.png'', ''generated/label_1_2.png'']"
  by code_simp

theorem inference_emits_per_label_witness:
  "fst (inference (init 784 1 1 example_parameters) [0, 1] ''generated''
          [(example_image 0, 0), (example_image 1, 1)] 3 (\<lambda>k. 0, [])) = Inr ()
   \<and> map fst (snd (snd (inference (init 784 1 1 example_parameters) [0, 1] ''generated''
          [(example_image 0, 0), (example_image 1, 1)] 3 (\<lambda>k. 0, [])))) =
     [''generated/label_0_0.png'', ''generated/label_0_1.png'', ''generated/label_0_2.png'',
      ''generated/label_1_0.png'', ''generated/label_1_1.png'', ''generated/label_1_2.png'']
   \<and> length (snd (snd (inference (init 784 1 1 example_parameters) [0, 1] ''generated''
          [(example_image 0, 0), (example_image 1, 1)] 3 (\<lambda>k. 0, [])))) = 6"
proof -
  let ?run = "inference (init 784 1 1 example_parameters) [0, 1] ''generated''
          [(example_image 0, 0), (example_image 1, 1)] 3 (\<lambda>k. 0, [])"
  have "\<forall>label \<in> set [0, 1 :: int]. - int 2 \<le> label \<and> label < int 2"
    by simp
  moreover have len: "length [0, 1 :: int] = 2" and pos: "0 < (2 :: nat)"
    by simp_all
  ultimately have ok: "fst ?run = Inr ()"
    unfolding inference_def len
    by (intro labels_loop_init [OF pos scenario_B_dataset scenario_B_scan])
  then obtain g' files' where r: "?run = (Inr (), (g', files'))"
    by (cases ?run) auto
  have n: "(0 :: int) \<le> 3" by simp
  from inference_emits_per_label [OF r n] scenario_B_paths
  have "map fst files' = [''generated/label_0_0.png'', ''generated/label_0_1.png'',
      ''generated/label_0_2.png'', ''generated/label_1_0.png'', ''generated/label_1_1.png'',
      ''generated/label_1_2.png''] \<and> length files' = 6"
    by simp
  with ok r show ?thesis by simp
qed

lemma inference_short:
  assumes "labels \<noteq> []" and "\<forall>(x, y) \<in> set dataset. length x = 784"
    and "snd (scan (length labels) [] 0 dataset) < length labels"
  shows "inference (init 784 h_dim z_dim p) labels folder dataset n_examples w
           = (Inl IndexError, w)"
proof -
  from assms(1) obtain l ls where ls: "labels = l # ls" by (cases labels) auto
  from assms(1) have "0 < length labels" by simp
  from exemplar_encoding_short [OF this assms(2,3), of h_dim z_dim p l]
  have "generate (init 784 h_dim z_dim p) (length labels) folder dataset n_examples l w
      = (Inl IndexError, w)"
    by (simp add: generate_def)
  then show ?thesis
    unfolding inference_def by (subst (2) ls) simp
qed

lemma labels_loop_fail_at:
  assumes "labels_loop m n folder ds n_examples ls1 w = (Inr u, w1)"
    and "generate m n folder ds n_examples l w1 = (Inl e, w2)"
  shows "labels_loop m n folder ds n_examples (ls1 @ l # ls2) w = (Inl e, w2)"
  using assms by (simp add: labels_loop_append)

lemma exemplar_encoding_out_of_range:
  assumes "0 < n" and "\<forall>(x, y) \<in> set ds. length x = 784" and "snd (scan n [] 0 ds) = n"
    and "int n \<le> label"
  shows "exemplar_encoding (init 784 h_dim z_dim p) n ds label = Inl IndexError"
proof -
  obtain images idx where s: "scan n [] 0 ds = (images, idx)"
    by (cases "scan n [] 0 ds")
  with scan_first_after [OF assms(1), of "[]" ds] have "idx = length images" by simp
  with assms(3) s have len: "length images = n" by simp
  from scan_images_784 [OF assms(1,2)] s
  have "\<forall>img \<in> set images. length img = 784" by simp
  with len have "\<forall>d \<in> set [0..<n]. d < length images \<and> length (images ! d) = 784"
    by simp
  from encodings_loop_init [OF this, of h_dim z_dim p "[]"] obtain encs
    where e: "encodings_loop (init 784 h_dim z_dim p) images [0..<n] [] = Inr encs"
      and l: "length encs = n"
    by auto
  from l assms(4) have "py_index encs label = Inl IndexError"
    by (simp add: py_index_def Let_def)
  with s e show ?thesis by (simp add: exemplar_encoding_def)
qed

text \<open>
  C8, as the code has it. For a model of input dimension 784, images of 784 entries and
  at least one label requested: when the stream ends before \<open>len(labels)\<close> exemplars are
  collected, the run ends with the error of the out-of-range index \<open>images[d]\<close>, at the
  first label, with nothing written and no noise drawn. And for any model: when the loop
  has run normally over the labels \<open>ls1\<close> and fails at the next label, the run ends with
  that error in the state of the failure, which holds everything written for \<open>ls1\<close>.
\<close>

theorem inference_exhausted_index_error:
  "(labels \<noteq> [] \<longrightarrow> (\<forall>(x, y) \<in> set dataset. length x = 784)
      \<longrightarrow> snd (scan (length labels) [] 0 dataset) < length labels
      \<longrightarrow> inference (init 784 h_dim z_dim p) labels folder dataset n_examples w
            = (Inl IndexError, w))
   \<and> (labels = ls1 @ l # ls2
      \<longrightarrow> labels_loop model (length labels) folder dataset n_examples ls1 w = (Inr (), w1)
      \<longrightarrow> generate model (length labels) folder dataset n_examples l w1 = (Inl e, w2)
      \<longrightarrow> inference model labels folder dataset n_examples w = (Inl e, w2)
          \<and> prefix (snd w) (snd w1) \<and> prefix (snd w1) (snd w2))"
proof (intro conjI impI)
  assume "labels \<noteq> []" "\<forall>(x, y) \<in> set dataset. length x = 784"
    "snd (scan (length labels) [] 0 dataset) < length labels"
  then show "inference (init 784 h_dim z_dim p) labels folder dataset n_examples w
      = (Inl IndexError, w)"
    by (rule inference_short)
next
  assume l: "labels = ls1 @ l # ls2"
    and 1: "labels_loop model (length labels) folder dataset n_examples ls1 w = (Inr (), w1)"
    and 2: "generate model (length labels) folder dataset n_examples l w1 = (Inl e, w2)"
  from labels_loop_fail_at [OF 1 2, of ls2]
  show "inference model labels folder dataset n_examples w = (Inl e, w2)"
    unfolding inference_def by (subst (2) l)
  from labels_loop_prefix [of w model "length labels" folder dataset n_examples ls1] 1
  show "prefix (snd w) (snd w1)" by simp
  from generate_prefix [of w1 model "length labels" folder dataset n_examples l] 2
  show "prefix (snd w1) (snd w2)" by simp
qed

text \<open>
  C8, as the specification states it, fails: with labels 0 and 1 requested and a stream
  that has label 0 only, the run ends with \<open>IndexError\<close>.
\<close>

theorem exhausted_stream_counterexample:
  "inference (init 784 1 1 example_parameters) [0, 1] ''generated''
     [(example_image 0, 0), (example_image 1, 0)] 3 (\<lambda>k. 0, []) = (Inl IndexError, (\<lambda>k. 0, []))"
proof -
  have "[0, 1 :: int] \<noteq> []" by simp
  moreover have "\<forall>(x, y) \<in> set [(example_image 0, 0), (example_image 1, 0 :: int)]. length x = 784"
    by (simp add: length_example_image)
  moreover have "snd (scan (length [0, 1 :: int]) [] 0 [(example_image 0, 0), (example_image 1, 0)])
      < length [0, 1 :: int]"
    by simp
  ultimately show ?thesis by (rule inference_short)
qed

lemma label_0_paths:
  "map (path ''generated'' 0) [0..<nat 3] =
     [''generated/label_0_0.png'', ''generated/label_0_1.png'', ''generated/label_0_2.png'']"
  by code_simp

theorem inference_exhausted_index_error_witness:
  "inference (init 784 1 1 example_parameters) [0, 1] ''generated''
     [(example_image 0, 0), (example_image 1, 0)] 3 (\<lambda>k. 0, []) = (Inl IndexError, (\<lambda>k. 0, []))
   \<and> fst (inference (init 784 1 1 example_parameters) [0, 5] ''generated''
          [(example_image 0, 0), (example_image 1, 1)] 3 (\<lambda>k. 0, [])) = Inl IndexError
   \<and> map fst (snd (snd (inference (init 784 1 1 example_parameters) [0, 5] ''generated''
          [(example_image 0, 0), (example_image 1, 1)] 3 (\<lambda>k. 0, [])))) =
     [''generated/label_0_0.png'', ''generated/label_0_1.png'', ''generated/label_0_2.png'']"
proof -
  let ?M = "init 784 1 1 example_parameters"
  let ?D = "[(example_image 0, 0), (example_image 1, 1 :: int)]"
  let ?w = "(\<lambda>k :: nat. 0 :: real, [] :: sink)"
  have a1: "[0, 1 :: int] \<noteq> []" by simp
  have a2: "\<forall>(x, y) \<in> set [(example_image 0, 0), (example_image 1, 0 :: int)]. length x = 784"
    by (simp add: length_example_image)
  have a3: "snd (scan (length [0, 1 :: int]) [] 0 [(example_image 0, 0), (example_image 1, 0)])
      < length [0, 1 :: int]"
    by simp
  have first: "inference ?M [0, 1] ''generated''
      [(example_image 0, 0), (example_image 1, 0)] 3 ?w = (Inl IndexError, ?w)"
    using inference_exhausted_index_error [where labels = "[0, 1]"
        and dataset = "[(example_image 0, 0), (example_image 1, 0)]" and h_dim = 1 and z_dim = 1
        and p = example_parameters and folder = "''generated''" and n_examples = 3 and w = ?w]
      a1 a2 a3
    by blast
  have len: "length [0, 5 :: int] = 2" and pos: "0 < (2 :: nat)"
    by simp_all
  have "\<forall>label \<in> set [0 :: int]. - int 2 \<le> label \<and> label < int 2"
    by simp
  then have "fst (labels_loop ?M 2 ''generated'' ?D 3 [0] ?w) = Inr ()"
    by (intro labels_loop_init [OF pos scenario_B_dataset scenario_B_scan])
  then obtain g1 files1 where b1: "labels_loop ?M 2 ''generated'' ?D 3 [0] ?w = (Inr (), (g1, files1))"
    by (cases "labels_loop ?M 2 ''generated'' ?D 3 [0] ?w") auto
  have "int 2 \<le> 5" by simp
  from exemplar_encoding_out_of_range [OF pos scenario_B_dataset scenario_B_scan this,
      of 1 1 example_parameters]
  have b2: "generate ?M 2 ''generated'' ?D 3 5 (g1, files1) = (Inl IndexError, (g1, files1))"
    by (simp add: generate_def)
  have b0: "[0, 5 :: int] = [0] @ 5 # []" by simp
  have second: "inference ?M [0, 5] ''generated'' ?D 3 ?w = (Inl IndexError, (g1, files1))"
    using inference_exhausted_index_error [where labels = "[0, 5]" and ?ls1.0 = "[0]" and l = 5
        and ?ls2.0 = "[]" and model = ?M and folder = "''generated''" and dataset = ?D
        and n_examples = 3 and w = ?w and ?w1.0 = "(g1, files1)" and e = IndexError
        and ?w2.0 = "(g1, files1)"]
      b0 b1 b2
    unfolding len by blast
  from labels_loop_paths [OF b1] label_0_paths
  have "map fst files1 = [''generated/label_0_0.png'', ''generated/label_0_1.png'',
      ''generated/label_0_2.png'']"
    by simp
  with first second show ?thesis by simp
qed

section \<open>The scan on the stream of labels 1, 0, 1\<close>

theorem scan_keeps_label_of_position_witness:
  "scan 2 [] 0 [(example_image 1, 1), (example_image 2, 0), (example_image 3, 1)]
     = ([example_image 2, example_image 3], 2)
   \<and> (\<exists>mu sigma.
         exemplar_encoding (init 784 1 1 example_parameters) 2
           [(example_image 1, 1), (example_image 2, 0), (example_image 3, 1)] 1 = Inr (mu, sigma)
       \<and> encode (init 784 1 1 example_parameters) [example_image 3] = Inr (mu, sigma))"
proof -
  let ?M = "init 784 1 1 example_parameters"
  let ?D = "[(example_image 1, 1), (example_image 2, 0), (example_image 3, 1 :: int)]"
  have pos: "0 < (2 :: nat)" by simp
  have t: "scan 2 [] 0 (tagged ?D) = ([(example_image 2, 0), (example_image 3, 1)], 2)"
    by (simp add: tagged_def)
  note w = scan_keeps_label_of_position [OF pos t, of ?M]
  have d: "\<forall>(x, y) \<in> set ?D. length x = 784"
    by (simp add: length_example_image)
  have s: "snd (scan 2 [] 0 ?D) = 2" by simp
  have "- int 2 \<le> 1" "(1 :: int) < int 2" by simp_all
  from exemplar_encoding_init [OF pos d s this, of 1 1 example_parameters] obtain mu sigma
    where e: "exemplar_encoding ?M 2 ?D 1 = Inr (mu, sigma)"
    by blast
  have "(0 :: int) \<le> 1" by simp
  with w e have "encode ?M [fst ([(example_image 2, 0 :: int), (example_image 3, 1)] ! nat 1)]
      = Inr (mu, sigma)"
    by blast
  then have "encode ?M [example_image 3] = Inr (mu, sigma)"
    by simp
  with e w show ?thesis by auto
qed

text \<open>
  C7, as the specification states it, fails: on the stream of labels 1, 0, 1 with two
  labels requested, the scan keeps the second and the third element, and the third is
  not the first occurrence of label 1; keeping first occurrences gives the first and the
  second element.
\<close>

theorem first_occurrence_counterexample:
  "fst (scan 2 [] 0 [([1], 1), ([2], 0), ([3], 1 :: int)]) = [[2], [3 :: real]]
   \<and> first_occurrences 2 [] [] [([1], 1), ([2], 0), ([3], 1 :: int)] = [[1], [2 :: real]]
   \<and> fst (scan 2 [] 0 [([1 :: real], 1), ([2], 0), ([3], 1 :: int)])
       \<noteq> first_occurrences 2 [] [] [([1], 1), ([2], 0), ([3], 1 :: int)]"
  by simp

end
